theory Spec2Isabelle
  imports Main
begin

section \<open>Python strings and string formatting\<close>

text \<open>
  A Python \<^verbatim>\<open>str\<close> is a sequence of Unicode code points; a code point is a natural
  number (\<^verbatim>\<open>ord(c)\<close>). String literals of the source are written with \<open>lit\<close>; the
  backslash, which has no literal syntax, is the code point 92.
\<close>

type_synonym py_str = "nat list"

definition lit :: "string \<Rightarrow> py_str" where
  "lit s = map of_char s"

abbreviation BSL :: nat where "BSL \<equiv> 92"
abbreviation NL :: nat where "NL \<equiv> 10"
abbreviation SPC :: nat where "SPC \<equiv> 32"
abbreviation LBRACE :: nat where "LBRACE \<equiv> 123"
abbreviation RBRACE :: nat where "RBRACE \<equiv> 125"

text \<open>\<^verbatim>\<open>'%d' % n\<close> and \<^verbatim>\<open>str(n)\<close>: the decimal numeral of an integer.\<close>

fun str_nat :: "nat \<Rightarrow> py_str" where
  "str_nat n = (if n < 10 then [48 + n] else str_nat (n div 10) @ [48 + n mod 10])"

declare str_nat.simps [simp del]

definition str_int :: "int \<Rightarrow> py_str" where
  "str_int i = (if i < 0 then 45 # str_nat (nat (- i)) else str_nat (nat i))"

text \<open>\<^verbatim>\<open>text.replace(old, new)\<close> for a one-character \<open>old\<close>.\<close>

definition replace :: "nat \<Rightarrow> py_str \<Rightarrow> py_str \<Rightarrow> py_str" where
  "replace old new text = concat (map (\<lambda>c. if c = old then new else [c]) text)"

text \<open>\<^verbatim>\<open>s.rjust(width)\<close>: pads with spaces on the left, never truncates.\<close>

definition rjust :: "py_str \<Rightarrow> nat \<Rightarrow> py_str" where
  "rjust s width = replicate (width - length s) SPC @ s"

text \<open>\<^verbatim>\<open>value.split('\n')\<close>: the pieces between newlines; \<open>cur\<close> is the piece being read.\<close>

fun split_acc :: "py_str \<Rightarrow> py_str \<Rightarrow> py_str list" where
  "split_acc cur [] = [cur]"
| "split_acc cur (c # cs) = (if c = NL then cur # split_acc [] cs else split_acc (cur @ [c]) cs)"

definition split_nl :: "py_str \<Rightarrow> py_str list" where
  "split_nl text = split_acc [] text"

definition endswith_nl :: "py_str \<Rightarrow> bool" where
  "endswith_nl text = (text \<noteq> [] \<and> last text = NL)"

section \<open>Errors\<close>

datatype error =
    InvalidColorFormat
  | UnknownColorReference
  | StyleKeyError
  | ZeroDivisionError

text \<open>
  \<open>InvalidColorFormat\<close> is the \<^verbatim>\<open>ValueError\<close> of \<^verbatim>\<open>int(color[i:j], 16)\<close>,
  \<open>UnknownColorReference\<close> the \<^verbatim>\<open>KeyError\<close> of \<^verbatim>\<open>color_mapping[...]\<close>,
  \<open>StyleKeyError\<close> the \<^verbatim>\<open>KeyError\<close> of \<^verbatim>\<open>style_for_token\<close>, and
  \<open>ZeroDivisionError\<close> that of \<^verbatim>\<open>% self.linenostep\<close>.
\<close>

fun fold_err :: "('s \<Rightarrow> 'a \<Rightarrow> error + 's) \<Rightarrow> 's \<Rightarrow> 'a list \<Rightarrow> error + 's" where
  "fold_err f s [] = Inr s"
| "fold_err f s (x # xs) = (case f s x of Inl e \<Rightarrow> Inl e | Inr s' \<Rightarrow> fold_err f s' xs)"

section \<open>Token types and styles\<close>

text \<open>
  Modelled from the spec: the category hierarchy of \<^verbatim>\<open>pygments.token\<close>. A category is
  the path of names from the root \<^verbatim>\<open>Token\<close> (the empty path); each category but the
  root has one parent. The loop test \<^verbatim>\<open>ttype.parent\<close> is read as "has a parent".
\<close>

type_synonym ttype = "string list"

definition Token_Literal_String_Doc :: ttype where
  "Token_Literal_String_Doc = [''Literal'', ''String'', ''Doc'']"

fun parent :: "ttype \<Rightarrow> ttype option" where
  "parent [] = None"
| "parent (n # ns) = Some (butlast (n # ns))"

type_synonym token = "ttype \<times> py_str"

text \<open>
  The record \<^verbatim>\<open>style_for_token\<close> returns, with the fields this formatter reads. A
  colour is \<^verbatim>\<open>None\<close> or a string of hex digits.
\<close>

record style_rec =
  color :: "py_str option"
  bgcolor :: "py_str option"
  border :: "py_str option"
  bold :: bool
  italic :: bool
  underline :: bool

text \<open>
  Modelled from the spec: the style lookup \<^verbatim>\<open>self.style\<close> of \<^verbatim>\<open>pygments.style\<close>,
  with the three capabilities the formatter uses: the enumeration of all categories with
  their styles (\<^verbatim>\<open>for _, style in self.style\<close>), \<^verbatim>\<open>styles_token\<close>, and
  \<^verbatim>\<open>style_for_token\<close> (\<open>None\<close> where it raises).
\<close>

record style_class =
  styles_iter :: "(ttype \<times> style_rec) list"
  styles_token :: "ttype \<Rightarrow> bool"
  style_for_token :: "ttype \<Rightarrow> style_rec option"

text \<open>The truth value of a colour field: \<^verbatim>\<open>None\<close> and \<^verbatim>\<open>''\<close> are false.\<close>

definition truthy :: "py_str option \<Rightarrow> bool" where
  "truthy c = (case c of None \<Rightarrow> False | Some s \<Rightarrow> s \<noteq> [])"

section \<open>The formatter object\<close>

record formatter =
  style :: style_class
  fontface :: py_str
  fontsize :: int
  linenos :: bool
  lineno_fontsize :: int
  linenostart :: int
  linenostep :: int

record options =
  opt_style :: style_class
  opt_fontface :: "py_str option"
  opt_fontsize :: "int option"
  opt_linenos :: "bool option"
  opt_lineno_fontsize :: "int option"
  opt_linenostart :: "int option"
  opt_linenostep :: "int option"

text \<open>
  Modelled from the spec: \<^verbatim>\<open>get_int_opt\<close> of \<^verbatim>\<open>pygments.util\<close>, for an option
  that is absent or given as an integer.
\<close>

definition get_int_opt :: "int option \<Rightarrow> int \<Rightarrow> int" where
  "get_int_opt v dflt = (case v of None \<Rightarrow> dflt | Some i \<Rightarrow> i)"

definition init :: "options \<Rightarrow> formatter" where
  "init opts =
     \<lparr> style = opt_style opts,
       fontface = (case opt_fontface opts of None \<Rightarrow> [] | Some f \<Rightarrow> f),
       fontsize = get_int_opt (opt_fontsize opts) 0,
       linenos = (case opt_linenos opts of None \<Rightarrow> False | Some b \<Rightarrow> b),
       lineno_fontsize = get_int_opt (opt_lineno_fontsize opts) 18,
       linenostart = abs (get_int_opt (opt_linenostart opts) 1),
       linenostep = abs (get_int_opt (opt_linenostep opts) 1) \<rparr>"

section \<open>Escaping\<close>

definition escape :: "py_str \<Rightarrow> py_str" where
  "escape text =
     replace RBRACE [BSL, RBRACE] (replace LBRACE [BSL, LBRACE] (replace BSL [BSL, BSL] text))"

text \<open>
  Modelled from the spec: \<^verbatim>\<open>surrogatepair\<close> of \<^verbatim>\<open>pygments.util\<close>, the standard
  UTF-16 decomposition of a code point above the basic plane into its high and low
  surrogate.
\<close>

definition surrogatepair :: "nat \<Rightarrow> nat \<times> nat" where
  "surrogatepair c = (0xD800 + (c - 0x10000) div 0x400, 0xDC00 + (c - 0x10000) mod 0x400)"

text \<open>The numeric escape group \<^verbatim>\<open>'{\\u%d}' % n\<close>.\<close>

definition u_escape :: "nat \<Rightarrow> py_str" where
  "u_escape n = lit ''{'' @ BSL # lit ''u'' @ str_nat n @ lit ''}''"

text \<open>The body of the loop over the characters of the escaped text.\<close>

definition escape_char :: "nat \<Rightarrow> py_str" where
  "escape_char cn =
     (if cn < 2 ^ 7 then [cn]
      else if 2 ^ 7 \<le> cn \<and> cn < 2 ^ 16 then u_escape cn
      else (case surrogatepair cn of (hi, lo) \<Rightarrow> u_escape hi @ u_escape lo))"

definition escape_text :: "py_str \<Rightarrow> py_str" where
  "escape_text text =
     (if text = [] then []
      else replace NL (BSL # lit ''par'' @ [NL]) (concat (map escape_char (escape text))))"

section \<open>The colour table\<close>

text \<open>
  \<^verbatim>\<open>int(s, 16)\<close> on a slice of a colour: the value of a non-empty string of hex
  digits. (Python also accepts a sign, surrounding blanks and non-ASCII decimal digits
  there; a colour of a style is six hex digits and has none of them, and the model
  raises on them.)
\<close>

definition hexval :: "nat \<Rightarrow> nat option" where
  "hexval c =
     (if 48 \<le> c \<and> c \<le> 57 then Some (c - 48)
      else if 97 \<le> c \<and> c \<le> 102 then Some (c - 87)
      else if 65 \<le> c \<and> c \<le> 70 then Some (c - 55)
      else None)"

fun int16_acc :: "nat \<Rightarrow> py_str \<Rightarrow> error + nat" where
  "int16_acc a [] = Inr a"
| "int16_acc a (c # cs) =
     (case hexval c of None \<Rightarrow> Inl InvalidColorFormat | Some d \<Rightarrow> int16_acc (16 * a + d) cs)"

definition int16 :: "py_str \<Rightarrow> error + nat" where
  "int16 s = (if s = [] then Inl InvalidColorFormat else int16_acc 0 s)"

text \<open>The three components \<^verbatim>\<open>color[0:2]\<close>, \<^verbatim>\<open>color[2:4]\<close>, \<^verbatim>\<open>color[4:6]\<close>.\<close>

definition rgb :: "py_str \<Rightarrow> error + (nat \<times> nat \<times> nat)" where
  "rgb c =
     (case int16 (take 2 c) of Inl e \<Rightarrow> Inl e | Inr r \<Rightarrow>
      (case int16 (take 2 (drop 2 c)) of Inl e \<Rightarrow> Inl e | Inr g \<Rightarrow>
       (case int16 (take 2 (drop 4 c)) of Inl e \<Rightarrow> Inl e | Inr b \<Rightarrow> Inr (r, g, b))))"

text \<open>The header entry \<^verbatim>\<open>'\\red%d\\green%d\\blue%d;'\<close>.\<close>

definition entry_str :: "nat \<times> nat \<times> nat \<Rightarrow> py_str" where
  "entry_str e =
     (case e of (r, g, b) \<Rightarrow>
        BSL # lit ''red'' @ str_nat r @ BSL # lit ''green'' @ str_nat g @
        BSL # lit ''blue'' @ str_nat b @ lit '';'')"

text \<open>
  The state of the colour loop: \<^verbatim>\<open>color_mapping\<close>, \<^verbatim>\<open>offset\<close>, and the entries
  written to the header so far.
\<close>

record ct_state =
  color_mapping :: "py_str \<rightharpoonup> nat"
  offset :: nat
  entries :: "(nat \<times> nat \<times> nat) list"

definition add_color :: "ct_state \<Rightarrow> py_str option \<Rightarrow> error + ct_state" where
  "add_color s c =
     (if truthy c \<and> the c \<notin> dom (color_mapping s) then
        (case rgb (the c) of
           Inl e \<Rightarrow> Inl e
         | Inr e \<Rightarrow>
             Inr \<lparr> color_mapping = (color_mapping s)(the c \<mapsto> offset s),
                   offset = offset s + 1,
                   entries = entries s @ [e] \<rparr>)
      else Inr s)"

definition add_style :: "ct_state \<Rightarrow> ttype \<times> style_rec \<Rightarrow> error + ct_state" where
  "add_style s ts =
     (case ts of (_, sty) \<Rightarrow> fold_err add_color s [color sty, bgcolor sty, border sty])"

definition color_table :: "style_class \<Rightarrow> error + ct_state" where
  "color_table st =
     fold_err add_style \<lparr> color_mapping = Map.empty, offset = 1, entries = [] \<rparr> (styles_iter st)"

section \<open>The line pre-pass\<close>

text \<open>The loop state is \<^verbatim>\<open>tokens\<close> and \<^verbatim>\<open>num_of_lines\<close>.\<close>

definition prepass_token :: "token list \<times> nat \<Rightarrow> token \<Rightarrow> token list \<times> nat" where
  "prepass_token s tok =
     (case s of (tokens, num_of_lines) \<Rightarrow>
      (case tok of (ttype, text) \<Rightarrow>
        (if ttype = Token_Literal_String_Doc then
           (tokens @ map (\<lambda>line. (ttype, line @ [NL])) (split_nl text),
            num_of_lines + length (split_nl text))
         else if text = [NL] then (tokens @ [(ttype, text)], num_of_lines + 1)
         else (tokens @ [(ttype, text)], num_of_lines))))"

definition prepass :: "token list \<Rightarrow> token list \<times> nat" where
  "prepass tokensource = foldl prepass_token ([], 0) tokensource"

section \<open>The highlight loop\<close>

text \<open>The control words collected in \<^verbatim>\<open>buf\<close>, each with the index it names.\<close>

datatype ctl = CB nat | CF nat | B | I | UL | CHBRDR nat

fun ctl_str :: "ctl \<Rightarrow> py_str" where
  "ctl_str (CB i) = BSL # lit ''cb'' @ str_nat i"
| "ctl_str (CF i) = BSL # lit ''cf'' @ str_nat i"
| "ctl_str B = BSL # lit ''b''"
| "ctl_str I = BSL # lit ''i''"
| "ctl_str UL = BSL # lit ''ul''"
| "ctl_str (CHBRDR i) = BSL # lit ''chbrdr'' @ BSL # lit ''chcfpat'' @ str_nat i"

text \<open>
  What is written to \<^verbatim>\<open>outfile\<close> in the loop, one constructor for each
  \<^verbatim>\<open>outfile.write\<close> of it: the line-number slot (font size and padded numeral), the
  opening of a styled group, the escaped text, and the closing brace.
\<close>

datatype chunk =
    LineNo int py_str
  | Open "ctl list"
  | Text py_str
  | Close

fun chunk_str :: "chunk \<Rightarrow> py_str" where
  "chunk_str (LineNo fs lineno_str) =
     lit ''{'' @ BSL # lit ''fs'' @ str_int fs @ lit '' '' @ BSL # lit ''cf1 '' @ lineno_str @ lit ''  }''"
| "chunk_str (Open buf) = lit ''{'' @ concat (map ctl_str buf) @ lit '' ''"
| "chunk_str (Text t) = t"
| "chunk_str Close = lit ''}''"

function resolve :: "style_class \<Rightarrow> ttype \<Rightarrow> ttype" where
  "resolve st t =
     (if \<not> styles_token st t then (case parent t of None \<Rightarrow> t | Some p \<Rightarrow> resolve st p)
      else t)"
  by pat_completeness auto
termination
proof (relation "measure (\<lambda>(st, t). length t)")
  show "wf (measure (\<lambda>(st, t). length t))" by simp
next
  fix st :: style_class and t p :: ttype
  assume "parent t = Some p"
  then show "((st, p), (st, t)) \<in> measure (\<lambda>(st, t). length t)"
    by (cases t) auto
qed

declare resolve.simps [simp del]

definition lineno_str :: "int \<Rightarrow> int \<Rightarrow> nat \<Rightarrow> error + py_str" where
  "lineno_str lineno step linenos_width =
     (if step = 0 then Inl ZeroDivisionError
      else if (lineno - step) mod step = 0 then Inr (rjust (str_int lineno) linenos_width)
      else Inr (rjust [] linenos_width))"

record hl_state =
  lineno :: int
  output_lineno :: bool
  outfile :: "chunk list"

definition line_numbers :: "formatter \<Rightarrow> nat \<Rightarrow> py_str \<Rightarrow> hl_state \<Rightarrow> error + hl_state" where
  "line_numbers self linenos_width text s =
     (if linenos self then
        (case (if output_lineno s then
                 (case lineno_str (lineno s) (linenostep self) linenos_width of
                    Inl e \<Rightarrow> Inl e
                  | Inr str \<Rightarrow>
                      Inr (s\<lparr> outfile := outfile s @ [LineNo (lineno_fontsize self) str],
                              output_lineno := False \<rparr>))
               else Inr s) of
           Inl e \<Rightarrow> Inl e
         | Inr s' \<Rightarrow>
             Inr (if endswith_nl text
                  then s'\<lparr> output_lineno := True, lineno := lineno s' + 1 \<rparr>
                  else s'))
      else Inr s)"

definition color_ref :: "(nat \<Rightarrow> ctl) \<Rightarrow> (py_str \<rightharpoonup> nat) \<Rightarrow> py_str option \<Rightarrow> error + ctl list" where
  "color_ref word cm c =
     (if truthy c then
        (case cm (the c) of None \<Rightarrow> Inl UnknownColorReference | Some i \<Rightarrow> Inr [word i])
      else Inr [])"

definition style_buf :: "(py_str \<rightharpoonup> nat) \<Rightarrow> style_rec \<Rightarrow> error + ctl list" where
  "style_buf cm sty =
     (case color_ref CB cm (bgcolor sty) of Inl e \<Rightarrow> Inl e | Inr bg \<Rightarrow>
      (case color_ref CF cm (color sty) of Inl e \<Rightarrow> Inl e | Inr fg \<Rightarrow>
       (case color_ref CHBRDR cm (border sty) of Inl e \<Rightarrow> Inl e | Inr bd \<Rightarrow>
          Inr (bg @ fg @ (if bold sty then [B] else []) @ (if italic sty then [I] else []) @
               (if underline sty then [UL] else []) @ bd))))"

definition token_chunks :: "ctl list \<Rightarrow> py_str \<Rightarrow> chunk list" where
  "token_chunks buf text =
     (let start = concat (map ctl_str buf) in
        (if start \<noteq> [] then [Open buf] else []) @ [Text (escape_text text)] @
        (if start \<noteq> [] then [Close] else []))"

definition highlight_token ::
    "formatter \<Rightarrow> (py_str \<rightharpoonup> nat) \<Rightarrow> nat \<Rightarrow> hl_state \<Rightarrow> token \<Rightarrow> error + hl_state" where
  "highlight_token self cm linenos_width s tok =
     (case tok of (ttype, text) \<Rightarrow>
      (case style_for_token (style self) (resolve (style self) ttype) of
         None \<Rightarrow> Inl StyleKeyError
       | Some sty \<Rightarrow>
           (case line_numbers self linenos_width text s of
              Inl e \<Rightarrow> Inl e
            | Inr s' \<Rightarrow>
                (case style_buf cm sty of
                   Inl e \<Rightarrow> Inl e
                 | Inr buf \<Rightarrow> Inr (s'\<lparr> outfile := outfile s' @ token_chunks buf text \<rparr>)))))"

section \<open>The document\<close>

record document =
  doc_colors :: "(nat \<times> nat \<times> nat) list"
  doc_body :: "chunk list"

definition render :: "formatter \<Rightarrow> token list \<Rightarrow> error + document" where
  "render self tokensource =
     (case color_table (style self) of
        Inl e \<Rightarrow> Inl e
      | Inr ct \<Rightarrow>
          (let (tokens, linenos_width) =
                 (if linenos self
                  then (case prepass tokensource of
                          (tokens, num_of_lines) \<Rightarrow> (tokens, length (str_nat num_of_lines)))
                  else (tokensource, 0))
           in (case fold_err (highlight_token self (color_mapping ct) linenos_width)
                      \<lparr> lineno = linenostart self, output_lineno = True, outfile = [] \<rparr> tokens of
                 Inl e \<Rightarrow> Inl e
               | Inr s \<Rightarrow> Inr \<lparr> doc_colors = entries ct, doc_body = outfile s \<rparr>)))"

definition doc_str :: "formatter \<Rightarrow> document \<Rightarrow> py_str" where
  "doc_str self d =
     lit ''{'' @ BSL # lit ''rtf1'' @ BSL # lit ''ansi'' @ BSL # lit ''uc0'' @ BSL # lit ''deff0'' @
     lit ''{'' @ BSL # lit ''fonttbl{'' @ BSL # lit ''f0'' @ BSL # lit ''fmodern'' @
     BSL # lit ''fprq1'' @ BSL # lit ''fcharset0'' @
     (if fontface self \<noteq> [] then lit '' '' @ escape (fontface self) else []) @
     lit '';}}'' @ lit ''{'' @ BSL # lit ''colortbl;'' @
     concat (map entry_str (doc_colors d)) @
     lit ''}'' @ BSL # lit ''f0 '' @
     (if fontsize self \<noteq> 0 then BSL # lit ''fs'' @ str_int (fontsize self) else []) @
     concat (map chunk_str (doc_body d)) @
     lit ''}''"

definition format_unencoded :: "formatter \<Rightarrow> token list \<Rightarrow> error + py_str" where
  "format_unencoded self tokensource =
     (case render self tokensource of Inl e \<Rightarrow> Inl e | Inr d \<Rightarrow> Inr (doc_str self d))"

section \<open>Specification-side definitions\<close>

text \<open>
  The structural escaping of one character, and of one code point by the whole escaper:
  \<open>escape\<close> and \<open>escape_text\<close> are shown below to apply them character by character.
\<close>

definition escape1 :: "nat \<Rightarrow> py_str" where
  "escape1 c = (if c = BSL \<or> c = LBRACE \<or> c = RBRACE then [BSL, c] else [c])"

definition escape_cp :: "nat \<Rightarrow> py_str" where
  "escape_cp c = replace NL (BSL # lit ''par'' @ [NL]) (concat (map escape_char (escape1 c)))"

text \<open>
  Reversing the structural escaping, after the spec's words: each pair of a backslash
  and a backslash, \<open>{\<close> or \<open>}\<close> is mapped back to its second character.
\<close>

fun unescape :: "py_str \<Rightarrow> py_str" where
  "unescape (a # b # cs) =
     (if a = BSL \<and> (b = BSL \<or> b = LBRACE \<or> b = RBRACE) then b # unescape cs
      else a # unescape (b # cs))"
| "unescape cs = cs"

text \<open>
  Modelled from the spec: a style class given by the table of its categories, as
  \<^verbatim>\<open>pygments.style\<close> keeps it: the enumeration is the table, a category is styled
  when the table has it, and the lookup raises for a category the table lacks.
\<close>

definition style_of_table :: "(ttype \<times> style_rec) list \<Rightarrow> style_class" where
  "style_of_table tab =
     \<lparr> styles_iter = tab, styles_token = (\<lambda>t. t \<in> fst ` set tab), style_for_token = map_of tab \<rparr>"

text \<open>The style record with no attribute set, and the options with none given.\<close>

definition no_style :: style_rec where
  "no_style =
     \<lparr> color = None, bgcolor = None, border = None, bold = False, italic = False,
       underline = False \<rparr>"

definition default_options :: "style_class \<Rightarrow> options" where
  "default_options st =
     \<lparr> opt_style = st, opt_fontface = None, opt_fontsize = None, opt_linenos = None,
       opt_lineno_fontsize = None, opt_linenostart = None, opt_linenostep = None \<rparr>"




text \<open>
  The style-control prefix after the spec's words: in the fixed order background colour,
  foreground colour, bold, italic, underline, border, the control word of each field
  that is set.
\<close>

definition style_prefix :: "(py_str \<rightharpoonup> nat) \<Rightarrow> style_rec \<Rightarrow> py_str" where
  "style_prefix cm sty =
     (if truthy (bgcolor sty) then BSL # lit ''cb'' @ str_nat (the (cm (the (bgcolor sty)))) else []) @
     (if truthy (color sty) then BSL # lit ''cf'' @ str_nat (the (cm (the (color sty)))) else []) @
     (if bold sty then BSL # lit ''b'' else []) @
     (if italic sty then BSL # lit ''i'' else []) @
     (if underline sty then BSL # lit ''ul'' else []) @
     (if truthy (border sty)
      then BSL # lit ''chbrdr'' @ BSL # lit ''chcfpat'' @ str_nat (the (cm (the (border sty))))
      else [])"

text \<open>
  The colours the colour loop scans, in scan order: for each category of the
  enumeration its foreground, background and border colour, unset ones left out.
\<close>

definition scan_colors :: "style_class \<Rightarrow> py_str list" where
  "scan_colors st =
     concat (map (\<lambda>ts. map the (filter truthy [color (snd ts), bgcolor (snd ts), border (snd ts)]))
               (styles_iter st))"

text \<open>The distinct elements of a list, in the order of their first occurrence.\<close>

function firsts :: "'a list \<Rightarrow> 'a list" where
  "firsts [] = []"
| "firsts (x # xs) = x # firsts (removeAll x xs)"
  by pat_completeness auto
termination
proof (relation "measure length")
  show "wf (measure length)" by simp
next
  fix x :: 'a and xs :: "'a list"
  have "length (removeAll x xs) \<le> length xs" by (rule length_removeAll_less_eq)
  then have "length (removeAll x xs) < Suc (length xs)" by (rule le_imp_less_Suc)
  then show "(removeAll x xs, x # xs) \<in> measure length" by simp
qed

text \<open>
  The colour indices a chunk of the body names: those of the control words of a styled
  group, and with them the fixed index 1 of a line-number slot.
\<close>

fun ctl_refs :: "ctl \<Rightarrow> nat list" where
  "ctl_refs (CB i) = [i]"
| "ctl_refs (CF i) = [i]"
| "ctl_refs (CHBRDR i) = [i]"
| "ctl_refs w = []"

fun style_refs :: "chunk \<Rightarrow> nat list" where
  "style_refs (Open buf) = concat (map ctl_refs buf)"
| "style_refs c = []"

fun color_refs :: "chunk \<Rightarrow> nat list" where
  "color_refs (LineNo fs s) = [1]"
| "color_refs c = style_refs c"

text \<open>
  The precondition that the style lookup and the enumeration agree: every style record
  the lookup returns is the record of a category of the enumeration.
\<close>

definition style_consistent :: "style_class \<Rightarrow> bool" where
  "style_consistent st =
     (\<forall>t sty. style_for_token st t = Some sty \<longrightarrow> sty \<in> snd ` set (styles_iter st))"

text \<open>
  The invariant of the colour loop, for the list \<open>cs\<close> of the colours met so far: they
  are the keys of the mapping, numbered from 1 in order, and their entries are written.
\<close>

definition ct_inv :: "ct_state \<Rightarrow> py_str list \<Rightarrow> bool" where
  "ct_inv s cs =
     (distinct cs \<and> dom (color_mapping s) = set cs \<and>
      (\<forall>i<length cs. color_mapping s (cs ! i) = Some (i + 1)) \<and>
      offset s = length cs + 1 \<and> map Inr (entries s) = map rgb cs)"

text \<open>The bounds of the colour loop: every index of the mapping is that of an entry.\<close>

definition ct_range :: "ct_state \<Rightarrow> bool" where
  "ct_range s =
     (offset s = length (entries s) + 1 \<and>
      (\<forall>c i. color_mapping s c = Some i \<longrightarrow> 1 \<le> i \<and> i \<le> length (entries s)))"

text \<open>
  The text of the header entry of a colour, after the spec's words: its red, green and
  blue components in decimal, each after its control word, closed by a semicolon.
\<close>

definition color_entry :: "py_str \<Rightarrow> py_str" where
  "color_entry c =
     (case rgb c of
        Inl e \<Rightarrow> []
      | Inr (r, g, b) \<Rightarrow>
          BSL # lit ''red'' @ str_nat r @ BSL # lit ''green'' @ str_nat g @
          BSL # lit ''blue'' @ str_nat b @ lit '';'')"

section \<open>Properties of the string functions\<close>


lemma str_nat_digit: "n < 10 \<Longrightarrow> str_nat n = [48 + n]"
  by (simp add: str_nat.simps)

lemma str_nat_step: "10 \<le> n \<Longrightarrow> str_nat n = str_nat (n div 10) @ [48 + n mod 10]"
  by (subst str_nat.simps) simp

lemma str_nat_digits: "x \<in> set (str_nat n) \<Longrightarrow> 48 \<le> x \<and> x \<le> 57"
proof (induction n arbitrary: x rule: str_nat.induct)
  case (1 n)
  show ?case
  proof (cases "n < 10")
    case True
    with 1(2) show ?thesis by (simp add: str_nat_digit)
  next
    case False
    have "n mod 10 < 10" by simp
    with 1 False show ?thesis by (auto simp: str_nat_step)
  qed
qed

lemma replace_Nil [simp]: "replace old new [] = []"
  by (simp add: replace_def)

lemma replace_Cons: "replace old new (c # cs) = (if c = old then new else [c]) @ replace old new cs"
  by (simp add: replace_def)

lemma replace_append: "replace old new (xs @ ys) = replace old new xs @ replace old new ys"
  by (simp add: replace_def)

lemma replace_absent: "old \<notin> set t \<Longrightarrow> replace old new t = t"
  by (induction t) (auto simp: replace_Cons)

lemma escape_concat: "escape t = concat (map escape1 t)"
  by (induction t) (auto simp: escape_def escape1_def replace_Cons replace_append)

lemma u_escape_ascii: "x \<in> set (u_escape n) \<Longrightarrow> x < 128"
  using str_nat_digits [of x n] by (auto simp: u_escape_def lit_def)

lemma u_escape_no_nl: "NL \<notin> set (u_escape n)"
  using str_nat_digits [of NL n] by (auto simp: u_escape_def lit_def)

lemma replace_u_escape: "replace NL new (u_escape n) = u_escape n"
  by (rule replace_absent [OF u_escape_no_nl])

lemma escape_text_concat: "escape_text t = concat (map escape_cp t)"
proof (cases "t = []")
  case True
  then show ?thesis by (simp add: escape_text_def)
next
  case False
  have "replace NL (BSL # lit ''par'' @ [NL]) (concat (map escape_char (concat (map escape1 t))))
        = concat (map escape_cp t)"
    by (induction t) (simp_all add: escape_cp_def replace_append)
  with False show ?thesis by (simp add: escape_text_def escape_concat)
qed

lemma escape_cp_low:
  "c < 128 \<Longrightarrow> escape_cp c =
     (if c = BSL \<or> c = LBRACE \<or> c = RBRACE then [BSL, c]
      else if c = NL then BSL # lit ''par'' @ [NL] else [c])"
  by (simp add: escape_cp_def escape1_def escape_char_def replace_Cons)

lemma escape_cp_mid: "128 \<le> c \<Longrightarrow> c < 65536 \<Longrightarrow> escape_cp c = u_escape c"
  by (simp add: escape_cp_def escape1_def escape_char_def replace_u_escape)

lemma escape_cp_high:
  "65536 \<le> c \<Longrightarrow> escape_cp c = u_escape (fst (surrogatepair c)) @ u_escape (snd (surrogatepair c))"
  by (simp add: escape_cp_def escape1_def escape_char_def replace_u_escape replace_append
      split: prod.split)

lemma escape_cp_ascii: "x \<in> set (escape_cp c) \<Longrightarrow> x < 128"
proof -
  assume x: "x \<in> set (escape_cp c)"
  consider "c < 128" | "128 \<le> c" "c < 65536" | "65536 \<le> c" by linarith
  then show ?thesis
  proof cases
    case 1
    with x show ?thesis by (auto simp: escape_cp_low lit_def split: if_splits)
  next
    case 2
    with x show ?thesis by (simp add: escape_cp_mid u_escape_ascii)
  next
    case 3
    with x show ?thesis by (auto simp: escape_cp_high dest: u_escape_ascii)
  qed
qed

lemma unescape_plain: "a \<noteq> BSL \<Longrightarrow> unescape (a # cs) = a # unescape cs"
  by (cases cs) simp_all

lemma unescape_escape1: "unescape (escape1 c @ cs) = c # unescape cs"
  by (auto simp: escape1_def unescape_plain)

lemma unescape_concat_escape1: "unescape (concat (map escape1 t)) = t"
  by (induction t) (simp_all add: unescape_escape1)

lemma escape_cp_printable: "32 \<le> c \<Longrightarrow> c \<le> 126 \<Longrightarrow> escape_cp c = escape1 c"
  by (simp add: escape_cp_low escape1_def)

text \<open>
  C5: for a text of printable ASCII characters only (code points 32 to 126), escaping it
  with \<open>escape_text\<close> and then reversing the structural escaping of backslash,
  \<open>{\<close> and \<open>}\<close> gives the text back.
\<close>

theorem escape_round_trip:
  assumes "\<forall>c\<in>set t. 32 \<le> c \<and> c \<le> 126"
  shows "unescape (escape_text t) = t"
proof -
  have "map escape_cp t = map escape1 t"
    using assms by (simp add: escape_cp_printable)
  then show ?thesis
    unfolding escape_text_concat by (simp only: unescape_concat_escape1)
qed

theorem escape_round_trip_witness:
  "escape_text (lit ''a{b}'' @ [BSL]) = lit ''a'' @ BSL # lit ''{b'' @ BSL # lit ''}'' @ [BSL, BSL] \<and>
   unescape (escape_text (lit ''a{b}'' @ [BSL])) = lit ''a{b}'' @ [BSL]"
proof -
  have p: "\<forall>c\<in>set (lit ''a{b}'' @ [BSL]). 32 \<le> c \<and> c \<le> 126"
    by (simp add: lit_def)
  have e: "escape_text (lit ''a{b}'' @ [BSL]) = lit ''a'' @ BSL # lit ''{b'' @ BSL # lit ''}'' @ [BSL, BSL]"
    by (simp add: escape_text_concat escape_cp_low lit_def)
  show ?thesis using escape_round_trip [OF p] e by simp
qed

text \<open>
  C6: every character of the output of \<open>escape_text\<close> is below 128, for every input.
  The output is the concatenation of the escapes of the single code points; a code point
  in [128, 65536) becomes one brace-wrapped group \<^verbatim>\<open>{\uN}\<close> with its decimal value,
  and a code point below 128 stays a literal character (after a backslash when it is a
  backslash or a brace, and after \<^verbatim>\<open>\par\<close> when it is the newline).
\<close>

theorem escape_text_ascii:
  "(\<forall>x\<in>set (escape_text t). x < 128) \<and>
   escape_text t = concat (map (\<lambda>c. escape_text [c]) t) \<and>
   (\<forall>c. 128 \<le> c \<and> c < 65536 \<longrightarrow>
      escape_text [c] = lit ''{'' @ BSL # lit ''u'' @ str_nat c @ lit ''}'') \<and>
   (\<forall>c. c < 128 \<longrightarrow>
      escape_text [c] =
        (if c = BSL \<or> c = LBRACE \<or> c = RBRACE then [BSL, c]
         else if c = NL then BSL # lit ''par'' @ [NL] else [c]))"
proof (intro conjI allI impI ballI)
  fix x assume "x \<in> set (escape_text t)"
  then show "x < 128" by (auto simp: escape_text_concat dest: escape_cp_ascii)
next
  show "escape_text t = concat (map (\<lambda>c. escape_text [c]) t)"
    by (simp add: escape_text_concat)
next
  fix c :: nat assume "128 \<le> c \<and> c < 65536"
  then show "escape_text [c] = lit ''{'' @ BSL # lit ''u'' @ str_nat c @ lit ''}''"
    by (simp add: escape_text_concat escape_cp_mid u_escape_def)
next
  fix c :: nat assume "c < 128"
  then show "escape_text [c] =
        (if c = BSL \<or> c = LBRACE \<or> c = RBRACE then [BSL, c]
         else if c = NL then BSL # lit ''par'' @ [NL] else [c])"
    by (simp add: escape_text_concat escape_cp_low)
qed

theorem escape_text_ascii_witness:
  "list_all (\<lambda>x. x < 128) (escape_text [233, 65, NL]) \<and>
   escape_text [233] = lit ''{'' @ BSL # lit ''u233}'' \<and>
   escape_text [65] = lit ''A'' \<and>
   escape_text [233, 65, NL] = escape_text [233] @ escape_text [65] @ escape_text [NL]"
proof -
  note th = escape_text_ascii [of "[233, 65, NL]"]
  have a: "list_all (\<lambda>x. x < 128) (escape_text [233, 65, NL])"
    using th [THEN conjunct1] by (simp only: list_all_iff)
  have b: "escape_text [233] = lit ''{'' @ BSL # lit ''u233}''"
    using th by (simp add: str_nat_digit str_nat_step lit_def)
  have c: "escape_text [65] = lit ''A''"
    using th by (simp add: lit_def)
  have d: "escape_text [233, 65, NL] = escape_text [233] @ escape_text [65] @ escape_text [NL]"
    using th by simp
  from a b c d show ?thesis by blast
qed

text \<open>
  C4: a code point from 65536 up to the largest one, 0x10FFFF, is escaped as exactly two
  brace-wrapped groups \<^verbatim>\<open>{\uH}{\uL}\<close>, high surrogate first: \<open>H\<close> lies in
  [0xD800, 0xDBFF], \<open>L\<close> in [0xDC00, 0xDFFF], and the pair decodes to the code point by
  the UTF-16 rule.
\<close>

theorem escape_text_surrogates:
  assumes "65536 \<le> c" and "c \<le> 0x10FFFF"
  shows "let hi = 0xD800 + (c - 0x10000) div 0x400; lo = 0xDC00 + (c - 0x10000) mod 0x400 in
         escape_text [c] =
           lit ''{'' @ BSL # lit ''u'' @ str_nat hi @ lit ''}'' @
           lit ''{'' @ BSL # lit ''u'' @ str_nat lo @ lit ''}'' \<and>
         0xD800 \<le> hi \<and> hi \<le> 0xDBFF \<and> 0xDC00 \<le> lo \<and> lo \<le> 0xDFFF \<and>
         0x10000 + (hi - 0xD800) * 0x400 + (lo - 0xDC00) = c"
proof -
  let ?hi = "0xD800 + (c - 0x10000) div 0x400" and ?lo = "0xDC00 + (c - 0x10000) mod 0x400"
  have e: "escape_text [c] =
           lit ''{'' @ BSL # lit ''u'' @ str_nat ?hi @ lit ''}'' @
           lit ''{'' @ BSL # lit ''u'' @ str_nat ?lo @ lit ''}''"
    using assms(1) by (simp add: escape_text_concat escape_cp_high surrogatepair_def u_escape_def)
  have h: "?hi \<le> 0xDBFF" using assms by simp
  have "(c - 0x10000) mod 0x400 < 0x400" by simp
  then have l: "?lo \<le> 0xDFFF" by linarith
  have r: "0x10000 + (?hi - 0xD800) * 0x400 + (?lo - 0xDC00) = c"
    using assms(1) by simp
  from e h l r show ?thesis unfolding Let_def by simp
qed

theorem escape_text_surrogates_witness:
  "escape_text [0x1F600] = lit ''{'' @ BSL # lit ''u55357}{'' @ BSL # lit ''u56832}''"
proof -
  have "(65536::nat) \<le> 0x1F600" and "(0x1F600::nat) \<le> 0x10FFFF" by simp_all
  from escape_text_surrogates [OF this] show ?thesis
    by (simp add: Let_def str_nat_digit str_nat_step lit_def)
qed

section \<open>Properties of the constructor\<close>

text \<open>
  C10: the constructor stores the absolute values of the options
  \<^verbatim>\<open>linenostart\<close> and \<^verbatim>\<open>linenostep\<close>, so a formatter configured with the negated
  values is the same formatter and renders every token stream to the same result.
\<close>

theorem init_abs_options:
  "linenostart (init opts) = \<bar>get_int_opt (opt_linenostart opts) 1\<bar> \<and>
   linenostep (init opts) = \<bar>get_int_opt (opt_linenostep opts) 1\<bar> \<and>
   init (opts\<lparr>opt_linenostart := Some (- a), opt_linenostep := Some (- b)\<rparr>) =
     init (opts\<lparr>opt_linenostart := Some a, opt_linenostep := Some b\<rparr>) \<and>
   format_unencoded (init (opts\<lparr>opt_linenostart := Some (- a), opt_linenostep := Some (- b)\<rparr>)) toks =
     format_unencoded (init (opts\<lparr>opt_linenostart := Some a, opt_linenostep := Some b\<rparr>)) toks"
  by (simp add: init_def get_int_opt_def)

section \<open>Properties of the line pre-pass\<close>

lemma split_acc_concat: "concat (map (\<lambda>l. l @ [NL]) (split_acc cur t)) = cur @ t @ [NL]"
  by (induction t arbitrary: cur) simp_all

lemma split_nl_concat: "concat (map (\<lambda>l. l @ [NL]) (split_nl t)) = t @ [NL]"
  by (simp add: split_nl_def split_acc_concat)

lemma prepass_doc_concat:
  "concat (map snd (fst (prepass [(Token_Literal_String_Doc, t)]))) = t @ [NL]"
  using split_nl_concat [of t]
  by (simp add: prepass_def prepass_token_def comp_def)

text \<open>
  C3: the pre-pass on a doc-string token. Every fragment gets a newline appended, the
  last one too: the token \<^verbatim>\<open>ab\<close>, which has no newline, becomes \<^verbatim>\<open>ab\n\<close>, and the
  fragments of \<^verbatim>\<open>a\nb\<close> concatenate to \<^verbatim>\<open>a\nb\n\<close>. The character content is not
  preserved.
\<close>

theorem prepass_doc_appends_newline:
  "prepass [(Token_Literal_String_Doc, lit ''ab'')] =
     ([(Token_Literal_String_Doc, lit ''ab'' @ [NL])], 1) \<and>
   prepass [(Token_Literal_String_Doc, lit ''a'' @ NL # lit ''b'')] =
     ([(Token_Literal_String_Doc, lit ''a'' @ [NL]), (Token_Literal_String_Doc, lit ''b'' @ [NL])], 2)"
  by (simp add: prepass_def prepass_token_def split_nl_def lit_def)

section \<open>Running the formatter\<close>

lemma resolve_styled: "styles_token st t \<Longrightarrow> resolve st t = t"
  by (simp add: resolve.simps)

lemma resolve_root: "resolve st [] = []"
  by (simp add: resolve.simps)

lemma resolve_parent:
  "\<not> styles_token st (n # ns) \<Longrightarrow> resolve st (n # ns) = resolve st (butlast (n # ns))"
  by (subst resolve.simps) simp

lemmas run_defs =
  render_def color_table_def add_style_def add_color_def truthy_def prepass_def
  prepass_token_def highlight_token_def line_numbers_def lineno_str_def style_buf_def
  color_ref_def token_chunks_def endswith_nl_def rjust_def str_int_def
  style_of_table_def no_style_def default_options_def init_def get_int_opt_def
  Token_Literal_String_Doc_def split_nl_def rgb_def int16_def hexval_def
  resolve_styled resolve_root resolve_parent str_nat_digit str_nat_step
  escape_text_concat escape_cp_low lit_def

text \<open>
  C2: the renderer and the pre-pass on the one-token stream \<^verbatim>\<open>(Text, 'a\n')\<close> with line
  numbering on: the body holds one line-number slot, while the pre-pass counts no line
  boundary, the text being neither a doc string nor exactly a newline.
\<close>

theorem line_count_mismatch:
  "render (init ((default_options (style_of_table [([], no_style)]))\<lparr>opt_linenos := Some True\<rparr>))
      [([''Text''], lit ''a'' @ [NL])] =
     Inr \<lparr> doc_colors = [],
           doc_body = [LineNo 18 (lit ''1''), Text (lit ''a'' @ BSL # lit ''par'' @ [NL])] \<rparr> \<and>
   snd (prepass [([''Text''], lit ''a'' @ [NL])]) = 0"
  by (simp add: run_defs)

section \<open>Properties of the line-number slots\<close>

lemma fold_err_append:
  "fold_err f s (xs @ ys) = (case fold_err f s xs of Inl e \<Rightarrow> Inl e | Inr s' \<Rightarrow> fold_err f s' ys)"
  by (induction xs arbitrary: s) (auto split: sum.splits)







lemma render_Inr:
  assumes "render self toks = Inr d"
  shows "\<exists>ct s. color_table (style self) = Inr ct \<and>
           fold_err (highlight_token self (color_mapping ct)
                       (if linenos self then length (str_nat (snd (prepass toks))) else 0))
             \<lparr> lineno = linenostart self, output_lineno = True, outfile = [] \<rparr>
             (if linenos self then fst (prepass toks) else toks) = Inr s \<and>
           doc_colors d = entries ct \<and> doc_body d = outfile s"
proof (cases "color_table (style self)")
  case (Inl e)
  with assms show ?thesis by (simp add: render_def)
next
  case (Inr ct)
  show ?thesis
  proof (cases "linenos self")
    case True
    with assms Inr show ?thesis
      by (auto simp: render_def split: prod.splits sum.splits)
  next
    case False
    with assms Inr show ?thesis
      by (auto simp: render_def split: sum.splits)
  qed
qed








section \<open>Properties of the style prefix\<close>

lemma color_ref_str:
  "color_ref word cm c = Inr b \<Longrightarrow>
   b = (if truthy c then [word (the (cm (the c)))] else [])"
  by (auto simp: color_ref_def split: if_splits option.splits)

lemma style_buf_prefix:
  assumes "style_buf cm sty = Inr buf"
  shows "concat (map ctl_str buf) = style_prefix cm sty"
proof -
  from assms obtain bg fg bd where
    bg: "color_ref CB cm (bgcolor sty) = Inr bg" and
    fg: "color_ref CF cm (color sty) = Inr fg" and
    bd: "color_ref CHBRDR cm (border sty) = Inr bd" and
    buf: "buf = bg @ fg @ (if bold sty then [B] else []) @ (if italic sty then [I] else []) @
               (if underline sty then [UL] else []) @ bd"
    by (auto simp: style_buf_def split: sum.splits)
  show ?thesis
    unfolding buf style_prefix_def
    using color_ref_str [OF bg] color_ref_str [OF fg] color_ref_str [OF bd]
    by simp
qed

lemma style_prefix_empty:
  "(style_prefix cm sty = []) =
     (\<not> truthy (bgcolor sty) \<and> \<not> truthy (color sty) \<and> \<not> bold sty \<and> \<not> italic sty \<and>
      \<not> underline sty \<and> \<not> truthy (border sty))"
  by (simp add: style_prefix_def)

text \<open>
  C8: a rendered token. Its style-control prefix holds, in the order background colour,
  foreground colour, bold, italic, underline, border, the control words of exactly the
  fields of the resolved style that are set; the escaped text is written inside a brace
  group opened by the prefix when the prefix is not empty, and bare otherwise; and the
  prefix is empty exactly when no field is set.
\<close>

theorem token_group:
  assumes "highlight_token self cm w s (ttype, t) = Inr s'"
  shows "\<exists>sty s1.
           style_for_token (style self) (resolve (style self) ttype) = Some sty \<and>
           line_numbers self w t s = Inr s1 \<and>
           concat (map chunk_str (outfile s')) =
             concat (map chunk_str (outfile s1)) @
             (if style_prefix cm sty = [] then escape_text t
              else lit ''{'' @ style_prefix cm sty @ lit '' '' @ escape_text t @ lit ''}'') \<and>
           (style_prefix cm sty = []) =
             (\<not> truthy (bgcolor sty) \<and> \<not> truthy (color sty) \<and> \<not> bold sty \<and> \<not> italic sty \<and>
              \<not> underline sty \<and> \<not> truthy (border sty))"
proof -
  from assms obtain sty s1 buf where
    sty: "style_for_token (style self) (resolve (style self) ttype) = Some sty" and
    l: "line_numbers self w t s = Inr s1" and
    b: "style_buf cm sty = Inr buf" and
    s': "s' = s1\<lparr>outfile := outfile s1 @ token_chunks buf t\<rparr>"
    by (auto simp: highlight_token_def split: option.splits sum.splits)
  have "concat (map chunk_str (token_chunks buf t)) =
          (if style_prefix cm sty = [] then escape_text t
           else lit ''{'' @ style_prefix cm sty @ lit '' '' @ escape_text t @ lit ''}'')"
    using style_buf_prefix [OF b]
    by (simp add: token_chunks_def Let_def del: concat_eq_Nil_conv)
  with sty l show ?thesis
    by (simp add: s' style_prefix_empty)
qed

theorem token_group_witness:
  "highlight_token
     (init (default_options (style_of_table
        [([], no_style), ([''Keyword''], no_style\<lparr>color := Some (lit ''FF0000''), bold := True\<rparr>)])))
     [lit ''FF0000'' \<mapsto> 1] 0 \<lparr> lineno = 1, output_lineno = True, outfile = [] \<rparr>
     ([''Keyword'', ''Reserved''], lit ''if'') =
   Inr \<lparr> lineno = 1, output_lineno = True,
         outfile = [Open [CF 1, B], Text (lit ''if''), Close] \<rparr> \<and>
   concat (map chunk_str [Open [CF 1, B], Text (lit ''if''), Close]) =
     lit ''{'' @ BSL # lit ''cf1'' @ BSL # lit ''b if}''"
proof -
  let ?kw = "no_style\<lparr>color := Some (lit ''FF0000''), bold := True\<rparr>"
  let ?f = "init (default_options (style_of_table [([], no_style), ([''Keyword''], ?kw)]))"
  let ?s = "\<lparr> lineno = 1, output_lineno = True, outfile = [] \<rparr>"
  let ?cm = "[lit ''FF0000'' \<mapsto> (1::nat)]"
  have h: "highlight_token ?f ?cm 0 ?s ([''Keyword'', ''Reserved''], lit ''if'') =
             Inr \<lparr> lineno = 1, output_lineno = True,
                   outfile = [Open [CF 1, B], Text (lit ''if''), Close] \<rparr>"
    by (simp add: run_defs)
  from token_group [OF h] obtain sty s1 where
    sty: "style_for_token (style ?f) (resolve (style ?f) [''Keyword'', ''Reserved'']) = Some sty" and
    l: "line_numbers ?f 0 (lit ''if'') ?s = Inr s1" and
    c: "concat (map chunk_str [Open [CF 1, B], Text (lit ''if''), Close]) =
          concat (map chunk_str (outfile s1)) @
          (if style_prefix ?cm sty = [] then escape_text (lit ''if'')
           else lit ''{'' @ style_prefix ?cm sty @ lit '' '' @ escape_text (lit ''if'') @ lit ''}'')"
    by auto
  from sty have sty': "sty = ?kw" by (simp add: run_defs)
  from l have s1: "outfile s1 = []" by (auto simp: run_defs)
  have "style_prefix ?cm ?kw = BSL # lit ''cf1'' @ BSL # lit ''b''"
    by (simp add: style_prefix_def run_defs)
  with c show ?thesis
    unfolding sty' s1 h by (simp add: run_defs)
qed

section \<open>Properties of the colour table\<close>

lemma ct_inv_add_color:
  assumes "ct_inv s cs" and "add_color s c = Inr s'"
  shows "ct_inv s' (if truthy c \<and> the c \<notin> set cs then cs @ [the c] else cs)"
proof (cases "truthy c \<and> the c \<notin> set cs")
  case False
  with assms show ?thesis by (auto simp: add_color_def ct_inv_def)
next
  case True
  with assms obtain e where e: "rgb (the c) = Inr e" and
    s': "s' = \<lparr> color_mapping = (color_mapping s)(the c \<mapsto> offset s), offset = offset s + 1,
                 entries = entries s @ [e] \<rparr>"
    by (auto simp: add_color_def ct_inv_def split: sum.splits)
  from assms(1) have d: "distinct cs" and dm: "dom (color_mapping s) = set cs"
    and ix: "\<forall>i<length cs. color_mapping s (cs ! i) = Some (i + 1)"
    and off: "offset s = length cs + 1" and en: "map Inr (entries s) = map rgb cs"
    by (simp_all add: ct_inv_def)
  have "\<forall>i<length (cs @ [the c]). color_mapping s' ((cs @ [the c]) ! i) = Some (i + 1)"
  proof (intro allI impI)
    fix i assume "i < length (cs @ [the c])"
    then consider "i < length cs" | "i = length cs" by fastforce
    then show "color_mapping s' ((cs @ [the c]) ! i) = Some (i + 1)"
    proof cases
      case 1
      then have "cs ! i \<in> set cs" by simp
      with True have "cs ! i \<noteq> the c" by auto
      with 1 ix show ?thesis by (simp add: s' nth_append)
    next
      case 2
      then show ?thesis by (simp add: s' off)
    qed
  qed
  with True d dm off en e show ?thesis
    by (simp add: ct_inv_def s')
qed

lemma ct_inv_fold:
  assumes "ct_inv s cs"
    and "\<forall>c\<in>set copts. truthy c \<longrightarrow> (\<exists>e. rgb (the c) = Inr e)"
  shows "\<exists>s'. fold_err add_color s copts = Inr s' \<and>
           ct_inv s' (cs @ firsts (filter (\<lambda>x. x \<notin> set cs) (map the (filter truthy copts))))"
  using assms
proof (induction copts arbitrary: s cs)
  case Nil
  then show ?case by simp
next
  case (Cons c copts)
  from Cons.prems(2) have ok: "truthy c \<longrightarrow> (\<exists>e. rgb (the c) = Inr e)"
    and rest: "\<forall>c\<in>set copts. truthy c \<longrightarrow> (\<exists>e. rgb (the c) = Inr e)"
    by simp_all
  have "\<exists>s1. add_color s c = Inr s1"
  proof (cases "truthy c \<and> the c \<notin> dom (color_mapping s)")
    case True
    with ok obtain e where "rgb (the c) = Inr e" by auto
    with True show ?thesis by (simp add: add_color_def)
  next
    case False
    then show ?thesis by (auto simp: add_color_def)
  qed
  then obtain s1 where a: "add_color s c = Inr s1" ..
  let ?cs1 = "if truthy c \<and> the c \<notin> set cs then cs @ [the c] else cs"
  have inv1: "ct_inv s1 ?cs1" by (rule ct_inv_add_color [OF Cons.prems(1) a])
  from Cons.IH [OF inv1 rest] obtain s' where
    f: "fold_err add_color s1 copts = Inr s'" and
    i: "ct_inv s' (?cs1 @ firsts (filter (\<lambda>x. x \<notin> set ?cs1) (map the (filter truthy copts))))"
    by blast
  have "?cs1 @ firsts (filter (\<lambda>x. x \<notin> set ?cs1) (map the (filter truthy copts))) =
        cs @ firsts (filter (\<lambda>x. x \<notin> set cs) (map the (filter truthy (c # copts))))"
  proof (cases "truthy c \<and> the c \<notin> set cs")
    case True
    have "removeAll (the c) (filter (\<lambda>x. x \<notin> set cs) (map the (filter truthy copts))) =
          filter (\<lambda>x. x \<notin> set (cs @ [the c])) (map the (filter truthy copts))"
      by (induction copts) auto
    with True show ?thesis by simp
  next
    case False
    then show ?thesis by auto
  qed
  with a f i show ?case by simp
qed

lemma add_style_eq:
  "add_style s ts = fold_err add_color s [color (snd ts), bgcolor (snd ts), border (snd ts)]"
  by (cases ts) (simp add: add_style_def)

lemma fold_add_style:
  "fold_err add_style s styles =
     fold_err add_color s
       (concat (map (\<lambda>ts. [color (snd ts), bgcolor (snd ts), border (snd ts)]) styles))"
proof (induction styles arbitrary: s)
  case Nil
  then show ?case by simp
next
  case (Cons ts styles)
  let ?three = "[color (snd ts), bgcolor (snd ts), border (snd ts)]"
  let ?rest = "concat (map (\<lambda>ts. [color (snd ts), bgcolor (snd ts), border (snd ts)]) styles)"
  have "fold_err add_style s (ts # styles) =
          (case add_style s ts of Inl e \<Rightarrow> Inl e | Inr s' \<Rightarrow> fold_err add_style s' styles)"
    by simp
  also have "\<dots> = (case fold_err add_color s ?three of Inl e \<Rightarrow> Inl e
                     | Inr s' \<Rightarrow> fold_err add_color s' ?rest)"
    by (simp only: add_style_eq Cons.IH)
  also have "\<dots> = fold_err add_color s (?three @ ?rest)"
    by (simp only: fold_err_append)
  finally show ?case by simp
qed

lemma scan_colors_concat:
  "scan_colors st =
     map the (filter truthy
       (concat (map (\<lambda>ts. [color (snd ts), bgcolor (snd ts), border (snd ts)]) (styles_iter st))))"
  unfolding scan_colors_def by (induction "styles_iter st" arbitrary: st) (simp_all add: map_concat filter_concat comp_def)

lemma set_firsts: "set (firsts xs) = set xs"
  by (induction xs rule: firsts.induct) auto

lemma color_entry_str: "rgb c = Inr e \<Longrightarrow> color_entry c = entry_str e"
  by (cases e) (simp add: color_entry_def entry_str_def)

lemma entries_text:
  "map Inr es = map rgb cs \<Longrightarrow> map entry_str es = map color_entry cs"
proof (induction cs arbitrary: es)
  case Nil
  then show ?case by simp
next
  case (Cons c cs)
  then obtain e es' where es: "es = e # es'" and e: "rgb c = Inr e"
    and r: "map Inr es' = map rgb cs"
    by (cases es) auto
  from Cons.IH [OF r] color_entry_str [OF e] show ?case by (simp add: es)
qed

text \<open>
  C7: the colour table. When every scanned colour parses, the loop succeeds; the colours
  scanned category by category in the order foreground, background, border, unset ones
  skipped, get the indices 1, 2, ... in the order of their first occurrence, a repeated
  colour keeps its index, and the document that is written holds, between
  \<^verbatim>\<open>{\colortbl;\<close> and \<^verbatim>\<open>}\f0\<close>, the entries of these colours in that order.
\<close>

theorem color_table_first_seen:
  assumes "\<forall>c\<in>set (scan_colors (style self)). \<exists>e. rgb c = Inr e"
  shows "(\<exists>ct. color_table (style self) = Inr ct \<and>
            distinct (firsts (scan_colors (style self))) \<and>
            dom (color_mapping ct) = set (scan_colors (style self)) \<and>
            (\<forall>i<length (firsts (scan_colors (style self))).
               color_mapping ct (firsts (scan_colors (style self)) ! i) = Some (i + 1)) \<and>
            offset ct = length (firsts (scan_colors (style self))) + 1 \<and>
            map Inr (entries ct) = map rgb (firsts (scan_colors (style self)))) \<and>
         (\<forall>toks out. format_unencoded self toks = Inr out \<longrightarrow>
            (\<exists>rest. out =
               lit ''{'' @ BSL # lit ''rtf1'' @ BSL # lit ''ansi'' @ BSL # lit ''uc0'' @
               BSL # lit ''deff0{'' @ BSL # lit ''fonttbl{'' @ BSL # lit ''f0'' @
               BSL # lit ''fmodern'' @ BSL # lit ''fprq1'' @ BSL # lit ''fcharset0'' @
               (if fontface self \<noteq> [] then lit '' '' @ escape (fontface self) else []) @
               lit '';}}{'' @ BSL # lit ''colortbl;'' @
               concat (map color_entry (firsts (scan_colors (style self)))) @
               lit ''}'' @ BSL # lit ''f0 '' @ rest))"
proof (intro conjI allI impI)
  let ?st = "style self"
  let ?copts = "concat (map (\<lambda>ts. [color (snd ts), bgcolor (snd ts), border (snd ts)]) (styles_iter ?st))"
  let ?s0 = "\<lparr> color_mapping = Map.empty, offset = 1, entries = [] \<rparr>"
  have sc: "scan_colors ?st = map the (filter truthy ?copts)" by (rule scan_colors_concat)
  have ok: "\<forall>c\<in>set ?copts. truthy c \<longrightarrow> (\<exists>e. rgb (the c) = Inr e)"
  proof (intro ballI impI)
    fix c assume "c \<in> set ?copts" and "truthy c"
    then have "the c \<in> set (scan_colors ?st)" unfolding sc by force
    with assms show "\<exists>e. rgb (the c) = Inr e" by blast
  qed
  have i0: "ct_inv ?s0 []" by (simp add: ct_inv_def)
  from ct_inv_fold [OF i0 ok] obtain ct where
    f: "fold_err add_color ?s0 ?copts = Inr ct" and
    i: "ct_inv ct (firsts (scan_colors ?st))"
    unfolding sc by auto
  from f have ct: "color_table ?st = Inr ct" by (simp add: color_table_def fold_add_style)
  with i show "\<exists>ct. color_table ?st = Inr ct \<and>
            distinct (firsts (scan_colors ?st)) \<and>
            dom (color_mapping ct) = set (scan_colors ?st) \<and>
            (\<forall>i<length (firsts (scan_colors ?st)).
               color_mapping ct (firsts (scan_colors ?st) ! i) = Some (i + 1)) \<and>
            offset ct = length (firsts (scan_colors ?st)) + 1 \<and>
            map Inr (entries ct) = map rgb (firsts (scan_colors ?st))"
    by (auto simp: ct_inv_def set_firsts)
  fix toks out assume fo: "format_unencoded self toks = Inr out"
  then obtain d where r: "render self toks = Inr d" and o: "out = doc_str self d"
    by (auto simp: format_unencoded_def split: sum.splits)
  from render_Inr [OF r] ct have "doc_colors d = entries ct" by auto
  moreover from i have "map Inr (entries ct) = map rgb (firsts (scan_colors ?st))"
    by (simp add: ct_inv_def)
  ultimately have "map entry_str (doc_colors d) = map color_entry (firsts (scan_colors ?st))"
    by (simp add: entries_text)
  then show "\<exists>rest. out =
               lit ''{'' @ BSL # lit ''rtf1'' @ BSL # lit ''ansi'' @ BSL # lit ''uc0'' @
               BSL # lit ''deff0{'' @ BSL # lit ''fonttbl{'' @ BSL # lit ''f0'' @
               BSL # lit ''fmodern'' @ BSL # lit ''fprq1'' @ BSL # lit ''fcharset0'' @
               (if fontface self \<noteq> [] then lit '' '' @ escape (fontface self) else []) @
               lit '';}}{'' @ BSL # lit ''colortbl;'' @
               concat (map color_entry (firsts (scan_colors ?st))) @
               lit ''}'' @ BSL # lit ''f0 '' @ rest"
    unfolding o doc_str_def by (simp add: lit_def)
qed

theorem color_table_first_seen_witness:
  "(\<exists>ct. color_table (style_of_table
            [([], no_style),
             ([''Keyword''], no_style\<lparr>color := Some (lit ''FF0000''), bold := True\<rparr>),
             ([''Name''], no_style\<lparr>color := Some (lit ''0000FF''), bgcolor := Some (lit ''FF0000'')\<rparr>)]) = Inr ct \<and>
         color_mapping ct (lit ''FF0000'') = Some 1 \<and>
         color_mapping ct (lit ''0000FF'') = Some 2 \<and>
         offset ct = 3 \<and>
         entries ct = [(255, 0, 0), (0, 0, 255)]) \<and>
   format_unencoded (init (default_options (style_of_table
            [([], no_style),
             ([''Keyword''], no_style\<lparr>color := Some (lit ''FF0000''), bold := True\<rparr>),
             ([''Name''], no_style\<lparr>color := Some (lit ''0000FF''), bgcolor := Some (lit ''FF0000'')\<rparr>)])))
      [([''Name''], lit ''x'')] =
     Inr (lit ''{'' @ BSL # lit ''rtf1'' @ BSL # lit ''ansi'' @ BSL # lit ''uc0'' @
          BSL # lit ''deff0{'' @ BSL # lit ''fonttbl{'' @ BSL # lit ''f0'' @
          BSL # lit ''fmodern'' @ BSL # lit ''fprq1'' @ BSL # lit ''fcharset0;}}{'' @
          BSL # lit ''colortbl;'' @
          BSL # lit ''red255'' @ BSL # lit ''green0'' @ BSL # lit ''blue0;'' @
          BSL # lit ''red0'' @ BSL # lit ''green0'' @ BSL # lit ''blue255;'' @
          lit ''}'' @ BSL # lit ''f0 {'' @ BSL # lit ''cb1'' @ BSL # lit ''cf2 x}}'')"
proof -
  let ?st = "style_of_table
            [([], no_style),
             ([''Keyword''], no_style\<lparr>color := Some (lit ''FF0000''), bold := True\<rparr>),
             ([''Name''], no_style\<lparr>color := Some (lit ''0000FF''), bgcolor := Some (lit ''FF0000'')\<rparr>)]"
  let ?f = "init (default_options ?st)"
  let ?toks = "[([''Name''], lit ''x'')]"
  have sty: "style ?f = ?st" by (simp add: init_def default_options_def)
  have sc: "scan_colors ?st = [lit ''FF0000'', lit ''0000FF'', lit ''FF0000'']"
    by (simp add: scan_colors_def style_of_table_def no_style_def truthy_def lit_def)
  have fs: "firsts (scan_colors ?st) = [lit ''FF0000'', lit ''0000FF'']"
    unfolding sc by (simp add: lit_def)
  have r1: "rgb (lit ''FF0000'') = Inr (255, 0, 0)" and r2: "rgb (lit ''0000FF'') = Inr (0, 0, 255)"
    by (simp_all add: rgb_def int16_def hexval_def lit_def)
  have ok: "\<forall>c\<in>set (scan_colors (style ?f)). \<exists>e. rgb c = Inr e"
    unfolding sty sc using r1 r2 by simp
  note th = color_table_first_seen [OF ok, unfolded sty]
  from th [THEN conjunct1] obtain ct where
    c: "color_table ?st = Inr ct" and
    ix: "\<forall>i<length (firsts (scan_colors ?st)).
           color_mapping ct (firsts (scan_colors ?st) ! i) = Some (i + 1)" and
    off: "offset ct = length (firsts (scan_colors ?st)) + 1" and
    en: "map Inr (entries ct) = map rgb (firsts (scan_colors ?st))"
    by blast
  from ix [unfolded fs, rule_format, of 0] ix [unfolded fs, rule_format, of 1]
  have "color_mapping ct (lit ''FF0000'') = Some 1" and "color_mapping ct (lit ''0000FF'') = Some 2"
    by simp_all
  moreover from off have "offset ct = 3" unfolding fs by simp
  moreover from en have "entries ct = [(255, 0, 0), (0, 0, 255)]"
    unfolding fs by (auto simp: r1 r2 map_eq_Cons_conv)
  ultimately have a: "\<exists>ct. color_table ?st = Inr ct \<and>
         color_mapping ct (lit ''FF0000'') = Some 1 \<and>
         color_mapping ct (lit ''0000FF'') = Some 2 \<and>
         offset ct = 3 \<and>
         entries ct = [(255, 0, 0), (0, 0, 255)]"
    using c by blast
  have b: "format_unencoded ?f ?toks =
     Inr (lit ''{'' @ BSL # lit ''rtf1'' @ BSL # lit ''ansi'' @ BSL # lit ''uc0'' @
          BSL # lit ''deff0{'' @ BSL # lit ''fonttbl{'' @ BSL # lit ''f0'' @
          BSL # lit ''fmodern'' @ BSL # lit ''fprq1'' @ BSL # lit ''fcharset0;}}{'' @
          BSL # lit ''colortbl;'' @
          BSL # lit ''red255'' @ BSL # lit ''green0'' @ BSL # lit ''blue0;'' @
          BSL # lit ''red0'' @ BSL # lit ''green0'' @ BSL # lit ''blue255;'' @
          lit ''}'' @ BSL # lit ''f0 {'' @ BSL # lit ''cb1'' @ BSL # lit ''cf2 x}}'')"
    by (simp add: format_unencoded_def doc_str_def entry_str_def run_defs)
  from a b show ?thesis by blast
qed

section \<open>Properties of the colour references\<close>

lemma int16_acc_error: "int16_acc a s = Inl e \<Longrightarrow> e = InvalidColorFormat"
  by (induction s arbitrary: a) (auto split: option.splits)

lemma rgb_error: "rgb c = Inl e \<Longrightarrow> e = InvalidColorFormat"
  by (auto simp: rgb_def int16_def split: sum.splits if_splits dest: int16_acc_error)

lemma add_color_error: "add_color s c = Inl e \<Longrightarrow> e = InvalidColorFormat"
  by (auto simp: add_color_def split: if_splits sum.splits dest: rgb_error)

lemma fold_add_color_error: "fold_err add_color s cs = Inl e \<Longrightarrow> e = InvalidColorFormat"
  by (induction cs arbitrary: s) (auto split: sum.splits dest: add_color_error)

lemma color_table_error: "color_table st = Inl e \<Longrightarrow> e = InvalidColorFormat"
  by (simp add: color_table_def fold_add_style fold_add_color_error)

lemma add_color_range:
  assumes "ct_range s" and "add_color s c = Inr s'"
  shows "ct_range s'"
  using assms
  by (auto simp: add_color_def ct_range_def split: if_splits sum.splits) fastforce+

lemma add_color_cover:
  assumes "add_color s c = Inr s'"
  shows "dom (color_mapping s) \<subseteq> dom (color_mapping s')"
    and "truthy c \<Longrightarrow> the c \<in> dom (color_mapping s')"
  using assms by (auto simp: add_color_def split: if_splits sum.splits)

lemma fold_add_color_cover:
  assumes "fold_err add_color s cs = Inr s'" and "ct_range s"
  shows "ct_range s' \<and> dom (color_mapping s) \<subseteq> dom (color_mapping s') \<and>
         (\<forall>c\<in>set cs. truthy c \<longrightarrow> the c \<in> dom (color_mapping s'))"
  using assms
proof (induction cs arbitrary: s)
  case Nil
  then show ?case by simp
next
  case (Cons c cs)
  from Cons.prems(1) obtain s1 where
    a: "add_color s c = Inr s1" and f: "fold_err add_color s1 cs = Inr s'"
    by (auto split: sum.splits)
  note r1 = add_color_range [OF Cons.prems(2) a]
  note c1 = add_color_cover [OF a]
  from Cons.IH [OF f r1] have r: "ct_range s'"
    and d: "dom (color_mapping s1) \<subseteq> dom (color_mapping s')"
    and c: "\<forall>c\<in>set cs. truthy c \<longrightarrow> the c \<in> dom (color_mapping s')"
    by simp_all
  have h: "the c \<in> dom (color_mapping s')" if "truthy c"
    using c1(2) [OF that] d by blast
  from c1(1) d have "dom (color_mapping s) \<subseteq> dom (color_mapping s')" by blast
  with r c h show ?case by simp
qed

lemma color_table_cover:
  assumes "color_table st = Inr ct"
  shows "\<forall>c i. color_mapping ct c = Some i \<longrightarrow> 1 \<le> i \<and> i \<le> length (entries ct)"
    and "\<forall>sty\<in>snd ` set (styles_iter st).
           \<forall>c\<in>{color sty, bgcolor sty, border sty}. truthy c \<longrightarrow> the c \<in> dom (color_mapping ct)"
proof -
  let ?s0 = "\<lparr> color_mapping = Map.empty, offset = 1, entries = [] \<rparr>"
  let ?copts = "concat (map (\<lambda>ts. [color (snd ts), bgcolor (snd ts), border (snd ts)]) (styles_iter st))"
  from assms have f: "fold_err add_color ?s0 ?copts = Inr ct"
    by (simp add: color_table_def fold_add_style)
  have "ct_range ?s0" by (simp add: ct_range_def)
  from fold_add_color_cover [OF f this]
  have r: "ct_range ct" and c: "\<forall>c\<in>set ?copts. truthy c \<longrightarrow> the c \<in> dom (color_mapping ct)"
    by simp_all
  from r show "\<forall>c i. color_mapping ct c = Some i \<longrightarrow> 1 \<le> i \<and> i \<le> length (entries ct)"
    by (simp add: ct_range_def)
  from c show "\<forall>sty\<in>snd ` set (styles_iter st).
           \<forall>c\<in>{color sty, bgcolor sty, border sty}. truthy c \<longrightarrow> the c \<in> dom (color_mapping ct)"
    by fastforce
qed

lemma color_ref_ok:
  assumes "truthy c \<longrightarrow> the c \<in> dom cm"
    and "\<forall>c i. cm c = Some i \<longrightarrow> 1 \<le> i \<and> i \<le> n"
    and "\<And>i. ctl_refs (word i) = [i]"
  shows "\<exists>b. color_ref word cm c = Inr b \<and> (\<forall>i\<in>set (concat (map ctl_refs b)). 1 \<le> i \<and> i \<le> n)"
proof (cases "truthy c")
  case False
  then show ?thesis by (simp add: color_ref_def)
next
  case True
  with assms(1) obtain i where i: "cm (the c) = Some i" by auto
  with assms(2) have "1 \<le> i \<and> i \<le> n" by blast
  with True i assms(3) show ?thesis by (simp add: color_ref_def)
qed

lemma style_buf_ok:
  assumes "\<forall>c\<in>{color sty, bgcolor sty, border sty}. truthy c \<longrightarrow> the c \<in> dom cm"
    and "\<forall>c i. cm c = Some i \<longrightarrow> 1 \<le> i \<and> i \<le> n"
  shows "\<exists>buf. style_buf cm sty = Inr buf \<and>
           (\<forall>i\<in>set (concat (map ctl_refs buf)). 1 \<le> i \<and> i \<le> n)"
proof -
  from assms(1) have c1: "truthy (bgcolor sty) \<longrightarrow> the (bgcolor sty) \<in> dom cm"
    and c2: "truthy (color sty) \<longrightarrow> the (color sty) \<in> dom cm"
    and c3: "truthy (border sty) \<longrightarrow> the (border sty) \<in> dom cm"
    by simp_all
  from color_ref_ok [OF c1 assms(2), of CB] obtain bg where
    bg: "color_ref CB cm (bgcolor sty) = Inr bg"
        "\<forall>i\<in>set (concat (map ctl_refs bg)). 1 \<le> i \<and> i \<le> n"
    by auto
  from color_ref_ok [OF c2 assms(2), of CF] obtain fg where
    fg: "color_ref CF cm (color sty) = Inr fg"
        "\<forall>i\<in>set (concat (map ctl_refs fg)). 1 \<le> i \<and> i \<le> n"
    by auto
  from color_ref_ok [OF c3 assms(2), of CHBRDR] obtain bd where
    bd: "color_ref CHBRDR cm (border sty) = Inr bd"
        "\<forall>i\<in>set (concat (map ctl_refs bd)). 1 \<le> i \<and> i \<le> n"
    by auto
  from bg fg bd show ?thesis by (auto simp: style_buf_def)
qed

lemma style_refs_token_chunks:
  "concat (map style_refs (token_chunks buf t)) =
     (if concat (map ctl_str buf) \<noteq> [] then concat (map ctl_refs buf) else [])"
  by (simp add: token_chunks_def Let_def del: concat_eq_Nil_conv)

lemma line_numbers_refs:
  assumes "line_numbers self w t s = Inr s1"
  shows "concat (map style_refs (outfile s1)) = concat (map style_refs (outfile s))"
  using assms
  by (auto simp: line_numbers_def split: if_splits sum.splits)

lemma line_numbers_error: "line_numbers self w t s \<noteq> Inl UnknownColorReference"
  by (auto simp: line_numbers_def lineno_str_def split: if_splits sum.splits)

lemma highlight_token_ok:
  assumes "style_consistent (style self)"
    and "\<forall>sty\<in>snd ` set (styles_iter (style self)).
           \<forall>c\<in>{color sty, bgcolor sty, border sty}. truthy c \<longrightarrow> the c \<in> dom cm"
    and "\<forall>c i. cm c = Some i \<longrightarrow> 1 \<le> i \<and> i \<le> n"
  shows "highlight_token self cm w s tok \<noteq> Inl UnknownColorReference"
    and "highlight_token self cm w s tok = Inr s' \<Longrightarrow>
         \<forall>i\<in>set (concat (map style_refs (outfile s))). 1 \<le> i \<and> i \<le> n \<Longrightarrow>
         \<forall>i\<in>set (concat (map style_refs (outfile s'))). 1 \<le> i \<and> i \<le> n"
proof -
  obtain tt t where tok: "tok = (tt, t)" by (cases tok)
  show "highlight_token self cm w s tok \<noteq> Inl UnknownColorReference"
  proof (cases "style_for_token (style self) (resolve (style self) tt)")
    case None
    then show ?thesis by (simp add: highlight_token_def tok)
  next
    case (Some sty)
    with assms(1) have "sty \<in> snd ` set (styles_iter (style self))"
      by (auto simp: style_consistent_def)
    with assms(2) have "\<forall>c\<in>{color sty, bgcolor sty, border sty}. truthy c \<longrightarrow> the c \<in> dom cm"
      by blast
    from style_buf_ok [OF this assms(3)] obtain buf where "style_buf cm sty = Inr buf" by blast
    with Some line_numbers_error [of self w t s] show ?thesis
      by (auto simp: highlight_token_def tok split: sum.splits)
  qed
  show "\<forall>i\<in>set (concat (map style_refs (outfile s'))). 1 \<le> i \<and> i \<le> n"
    if h: "highlight_token self cm w s tok = Inr s'"
      and o: "\<forall>i\<in>set (concat (map style_refs (outfile s))). 1 \<le> i \<and> i \<le> n"
  proof -
    from h obtain sty s1 buf where
      sty: "style_for_token (style self) (resolve (style self) tt) = Some sty" and
      l: "line_numbers self w t s = Inr s1" and
      b: "style_buf cm sty = Inr buf" and
      s': "s' = s1\<lparr>outfile := outfile s1 @ token_chunks buf t\<rparr>"
      by (auto simp: highlight_token_def tok split: option.splits sum.splits)
    from sty assms(1) have "sty \<in> snd ` set (styles_iter (style self))"
      by (auto simp: style_consistent_def)
    with assms(2) have "\<forall>c\<in>{color sty, bgcolor sty, border sty}. truthy c \<longrightarrow> the c \<in> dom cm"
      by blast
    from style_buf_ok [OF this assms(3)] b
    have r: "\<forall>i\<in>set (concat (map ctl_refs buf)). 1 \<le> i \<and> i \<le> n" by simp
    have "set (concat (map style_refs (outfile s'))) \<subseteq>
            set (concat (map style_refs (outfile s))) \<union> set (concat (map ctl_refs buf))"
      unfolding s' using line_numbers_refs [OF l] style_refs_token_chunks [of buf t]
      by (auto split: if_splits)
    with o r show ?thesis by blast
  qed
qed

lemma highlight_ok:
  assumes "style_consistent (style self)"
    and "\<forall>sty\<in>snd ` set (styles_iter (style self)).
           \<forall>c\<in>{color sty, bgcolor sty, border sty}. truthy c \<longrightarrow> the c \<in> dom cm"
    and "\<forall>c i. cm c = Some i \<longrightarrow> 1 \<le> i \<and> i \<le> n"
    and "\<forall>i\<in>set (concat (map style_refs (outfile s))). 1 \<le> i \<and> i \<le> n"
  shows "fold_err (highlight_token self cm w) s toks \<noteq> Inl UnknownColorReference \<and>
         (\<forall>s'. fold_err (highlight_token self cm w) s toks = Inr s' \<longrightarrow>
            (\<forall>i\<in>set (concat (map style_refs (outfile s'))). 1 \<le> i \<and> i \<le> n))"
  using assms(4)
proof (induction toks arbitrary: s)
  case Nil
  then show ?case by simp
next
  case (Cons tok toks)
  note ht = highlight_token_ok [OF assms(1,2,3)]
  show ?case
  proof (cases "highlight_token self cm w s tok")
    case (Inl e)
    with ht(1) [of w s tok] show ?thesis by auto
  next
    case (Inr s1)
    from ht(2) [OF Inr Cons.prems]
    have "\<forall>i\<in>set (concat (map style_refs (outfile s1))). 1 \<le> i \<and> i \<le> n" .
    from Cons.IH [OF this] Inr show ?thesis by simp
  qed
qed

lemma color_refs_subset:
  "set (concat (map color_refs out)) \<subseteq> insert 1 (set (concat (map style_refs out)))"
proof (induction out)
  case Nil
  then show ?case by simp
next
  case (Cons c out)
  then show ?case by (cases c) auto
qed

text \<open>
  C9 (as amended): when every style the lookup returns is one of the enumeration, the
  lookup of a colour index never fails, and every colour index written for the style of
  a token is an index of the colour table of the header. When the table is not empty,
  this holds of the index 1 of the line-number slots too.
\<close>

theorem style_colors_in_table:
  assumes "style_consistent (style self)"
  shows "render self toks \<noteq> Inl UnknownColorReference \<and>
         format_unencoded self toks \<noteq> Inl UnknownColorReference \<and>
         (\<forall>d. render self toks = Inr d \<longrightarrow>
            (\<forall>i\<in>set (concat (map style_refs (doc_body d))). 1 \<le> i \<and> i \<le> length (doc_colors d)) \<and>
            (doc_colors d \<noteq> [] \<longrightarrow>
               (\<forall>i\<in>set (concat (map color_refs (doc_body d))). 1 \<le> i \<and> i \<le> length (doc_colors d))))"
proof -
  let ?s0 = "\<lparr> lineno = linenostart self, output_lineno = True, outfile = [] \<rparr>"
  have r: "render self toks \<noteq> Inl UnknownColorReference"
  proof (cases "color_table (style self)")
    case (Inl e)
    with color_table_error [OF Inl] show ?thesis by (simp add: render_def)
  next
    case (Inr ct)
    note cv = color_table_cover [OF Inr]
    have s0: "\<forall>i\<in>set (concat (map style_refs (outfile ?s0))). 1 \<le> i \<and> i \<le> length (entries ct)"
      by simp
    note h = highlight_ok [OF assms cv(2) cv(1) s0, THEN conjunct1]
    show ?thesis
    proof (cases "linenos self")
      case True
      with Inr h [of "length (str_nat (snd (prepass toks)))" "fst (prepass toks)"]
      show ?thesis by (auto simp: render_def split: prod.splits sum.splits)
    next
      case False
      with Inr h [of 0 toks]
      show ?thesis by (auto simp: render_def split: sum.splits)
    qed
  qed
  have f: "format_unencoded self toks \<noteq> Inl UnknownColorReference"
    using r by (auto simp: format_unencoded_def split: sum.splits)
  have b: "(\<forall>i\<in>set (concat (map style_refs (doc_body d))). 1 \<le> i \<and> i \<le> length (doc_colors d)) \<and>
           (doc_colors d \<noteq> [] \<longrightarrow>
              (\<forall>i\<in>set (concat (map color_refs (doc_body d))). 1 \<le> i \<and> i \<le> length (doc_colors d)))"
    if d: "render self toks = Inr d" for d
  proof -
    from render_Inr [OF d] obtain ct :: ct_state and s where
      ct: "color_table (style self) = Inr ct" and
      fo: "fold_err (highlight_token self (color_mapping ct)
                       (if linenos self then length (str_nat (snd (prepass toks))) else 0))
             ?s0 (if linenos self then fst (prepass toks) else toks) = Inr s" and
      dc: "doc_colors d = entries ct" and db: "doc_body d = outfile s"
      by blast
    note cv = color_table_cover [OF ct]
    have s0: "\<forall>i\<in>set (concat (map style_refs (outfile ?s0))). 1 \<le> i \<and> i \<le> length (entries ct)"
      by simp
    from highlight_ok [OF assms cv(2) cv(1) s0, THEN conjunct2, rule_format, OF fo]
    have st: "\<forall>i\<in>set (concat (map style_refs (doc_body d))). 1 \<le> i \<and> i \<le> length (doc_colors d)"
      by (simp add: dc db)
    have "\<forall>i\<in>set (concat (map color_refs (doc_body d))). 1 \<le> i \<and> i \<le> length (doc_colors d)"
      if ne: "doc_colors d \<noteq> []"
    proof
      fix i assume "i \<in> set (concat (map color_refs (doc_body d)))"
      with color_refs_subset [of "doc_body d"]
      have "i = 1 \<or> i \<in> set (concat (map style_refs (doc_body d)))" by blast
      moreover from ne have "1 \<le> length (doc_colors d)" by (cases "doc_colors d") simp_all
      ultimately show "1 \<le> i \<and> i \<le> length (doc_colors d)" using st by auto
    qed
    with st show ?thesis by blast
  qed
  from r f b show ?thesis by blast
qed

lemma style_consistent_table: "style_consistent (style_of_table tab)"
  by (auto simp: style_consistent_def style_of_table_def dest!: map_of_SomeD intro: rev_image_eqI)

text \<open>
  C9 (as stated) fails: with line numbering on and a style that sets no colour, the
  colour table is empty and the line-number slot still names the colour index 1.
\<close>

theorem lineno_color_not_in_table:
  "style_consistent
     (style (init ((default_options (style_of_table [([], no_style)]))\<lparr>opt_linenos := Some True\<rparr>))) \<and>
   render (init ((default_options (style_of_table [([], no_style)]))\<lparr>opt_linenos := Some True\<rparr>))
      [([], lit ''a'')] =
     Inr \<lparr> doc_colors = [], doc_body = [LineNo 18 (lit ''1''), Text (lit ''a'')] \<rparr> \<and>
   concat (map color_refs [LineNo 18 (lit ''1''), Text (lit ''a'')]) = [1] \<and>
   format_unencoded (init ((default_options (style_of_table [([], no_style)]))\<lparr>opt_linenos := Some True\<rparr>))
      [([], lit ''a'')] =
     Inr (lit ''{'' @ BSL # lit ''rtf1'' @ BSL # lit ''ansi'' @ BSL # lit ''uc0'' @ BSL # lit ''deff0{'' @
          BSL # lit ''fonttbl{'' @ BSL # lit ''f0'' @ BSL # lit ''fmodern'' @ BSL # lit ''fprq1'' @
          BSL # lit ''fcharset0;}}{'' @ BSL # lit ''colortbl;}'' @ BSL # lit ''f0 {'' @
          BSL # lit ''fs18 '' @ BSL # lit ''cf1 1  }a}'')"
proof -
  let ?f = "init ((default_options (style_of_table [([], no_style)]))\<lparr>opt_linenos := Some True\<rparr>)"
  have c: "style_consistent (style ?f)"
    by (simp add: init_def default_options_def style_consistent_table)
  have r: "render ?f [([], lit ''a'')] =
             Inr \<lparr> doc_colors = [], doc_body = [LineNo 18 (lit ''1''), Text (lit ''a'')] \<rparr>"
    by (simp add: run_defs)
  have f: "format_unencoded ?f [([], lit ''a'')] =
     Inr (lit ''{'' @ BSL # lit ''rtf1'' @ BSL # lit ''ansi'' @ BSL # lit ''uc0'' @ BSL # lit ''deff0{'' @
          BSL # lit ''fonttbl{'' @ BSL # lit ''f0'' @ BSL # lit ''fmodern'' @ BSL # lit ''fprq1'' @
          BSL # lit ''fcharset0;}}{'' @ BSL # lit ''colortbl;}'' @ BSL # lit ''f0 {'' @
          BSL # lit ''fs18 '' @ BSL # lit ''cf1 1  }a}'')"
    unfolding format_unencoded_def r
    by (simp add: doc_str_def init_def default_options_def get_int_opt_def str_int_def
                  str_nat_digit str_nat_step lit_def)
  from c r f show ?thesis by simp
qed

theorem style_colors_in_table_witness:
  "render (init ((default_options (style_of_table
             [([], no_style), ([''Keyword''], no_style\<lparr>color := Some (lit ''FF0000''), bold := True\<rparr>)]))
           \<lparr>opt_linenos := Some True\<rparr>))
      [([''Keyword''], lit ''if'')] =
     Inr \<lparr> doc_colors = [(255, 0, 0)],
           doc_body = [LineNo 18 (lit ''1''), Open [CF 1, B], Text (lit ''if''), Close] \<rparr> \<and>
   list_all (\<lambda>i. 1 \<le> i \<and> i \<le> length [(255::nat, 0::nat, 0::nat)])
     (concat (map color_refs [LineNo 18 (lit ''1''), Open [CF 1, B], Text (lit ''if''), Close]))"
proof -
  let ?f = "init ((default_options (style_of_table
             [([], no_style), ([''Keyword''], no_style\<lparr>color := Some (lit ''FF0000''), bold := True\<rparr>)]))
           \<lparr>opt_linenos := Some True\<rparr>)"
  let ?d = "\<lparr> doc_colors = [(255::nat, 0::nat, 0::nat)],
             doc_body = [LineNo 18 (lit ''1''), Open [CF 1, B], Text (lit ''if''), Close] \<rparr>"
  have c: "style_consistent (style ?f)"
    by (simp add: init_def default_options_def style_consistent_table)
  have r: "render ?f [([''Keyword''], lit ''if'')] = Inr ?d"
    by (simp add: run_defs)
  have ne: "doc_colors ?d \<noteq> []" by simp
  from style_colors_in_table [OF c, of "[([''Keyword''], lit ''if'')]"] r ne
  have "\<forall>i\<in>set (concat (map color_refs (doc_body ?d))). 1 \<le> i \<and> i \<le> length (doc_colors ?d)"
    by blast
  then have "list_all (\<lambda>i. 1 \<le> i \<and> i \<le> length [(255::nat, 0::nat, 0::nat)])
     (concat (map color_refs [LineNo 18 (lit ''1''), Open [CF 1, B], Text (lit ''if''), Close]))"
    by (simp only: list_all_iff document.simps)
  with r show ?thesis by blast
qed

end
